theory Spec2Isabelle
  imports
    Main
    "HOL-Library.Word"
    "HOL-Library.Multiset"
    "HOL-Library.List_Lexorder"
    "HOL-Library.AList"
begin

section \<open>The client epoch queue of client/order/epochqueue.go\<close>

subsection \<open>Byte arrays\<close>

text \<open>
  \<^verbatim>\<open>order.OrderID\<close>, \<^verbatim>\<open>order.Commitment\<close> and \<^verbatim>\<open>order.Preimage\<close> are arrays
  \<^verbatim>\<open>[32]byte\<close>; a slice \<^verbatim>\<open>[]byte\<close> is a byte list of any length.
\<close>

type_synonym byte = "8 word"
type_synonym OrderID = "byte list"
type_synonym Commitment = "byte list"
type_synonym Preimage = "byte list"

text \<open>
  \<^verbatim>\<open>var a [32]byte; copy(a[:], src)\<close>: the first 32 bytes of \<open>src\<close>, the rest of the
  array keeps its zero value.
\<close>

definition copy32 :: "byte list \<Rightarrow> byte list" where
  "copy32 src = take 32 src @ replicate (32 - length src) 0"

text \<open>The zero value of a \<^verbatim>\<open>[32]byte\<close>.\<close>

definition zero32 :: "byte list" where
  "zero32 = replicate 32 0"

subsection \<open>Standard library: bytes.Compare and sort.Slice\<close>

text \<open>
  \<^verbatim>\<open>bytes.Compare(a, b)\<close> compares two byte slices lexicographically, bytes being
  unsigned: the result is 0 if a == b, -1 if a < b, and +1 if a > b.
\<close>

fun bytes_Compare :: "byte list \<Rightarrow> byte list \<Rightarrow> int" where
  "bytes_Compare [] [] = 0"
| "bytes_Compare [] (b # bs) = - 1"
| "bytes_Compare (a # as) [] = 1"
| "bytes_Compare (a # as) (b # bs) =
     (if a < b then - 1 else if b < a then 1 else bytes_Compare as bs)"

text \<open>
  \<^verbatim>\<open>sort.Slice(x, less)\<close> puts the slice in an order where no element is less than an
  earlier one, \<open>lt\<close> being the less function. It is modelled by insertion: each
  element goes after the elements that are less than it.
\<close>

fun insert_by :: "('a \<Rightarrow> 'a \<Rightarrow> bool) \<Rightarrow> 'a \<Rightarrow> 'a list \<Rightarrow> 'a list" where
  "insert_by lt x [] = [x]"
| "insert_by lt x (y # ys) =
     (if lt y x then y # insert_by lt x ys else x # y # ys)"

definition sort_Slice :: "('a \<Rightarrow> 'a \<Rightarrow> bool) \<Rightarrow> 'a list \<Rightarrow> 'a list" where
  "sort_Slice lt xs = foldr (insert_by lt) xs []"

text \<open>
  The closure of both calls in GenerateMatchProof:
  \<^verbatim>\<open>bytes.Compare(x[i][:], x[j][:]) < 0\<close>.
\<close>

definition bytes_less :: "byte list \<Rightarrow> byte list \<Rightarrow> bool" where
  "bytes_less a b = (bytes_Compare a b < 0)"

subsection \<open>Notes and the queue\<close>

text \<open>
  The fields of \<^verbatim>\<open>msgjson.EpochOrderNote\<close> that makeEpochOrderNote fills in.
  OrderID and Commitment are byte slices there.
\<close>

record EpochOrderNote =
  MarketID :: string
  Side :: "8 word"
  Rate :: "64 word"
  Quantity :: "64 word"
  OrderID :: "byte list"
  Commitment :: "byte list"

text \<open>
  \<^verbatim>\<open>orders map[order.OrderID]order.Commitment\<close>: an association list with one entry
  per key. The mutex serialises the operations; each one is a function on the state.
\<close>

record EpochQueue =
  orders :: "(OrderID \<times> Commitment) list"

definition NewEpochQueue :: EpochQueue where
  "NewEpochQueue = \<lparr>orders = []\<rparr>"

definition Reset :: "EpochQueue \<Rightarrow> EpochQueue" where
  "Reset eq = eq\<lparr>orders := []\<rparr>"

definition Enqueue :: "EpochQueue \<Rightarrow> EpochOrderNote \<Rightarrow> EpochQueue" where
  "Enqueue eq note =
     (let oid = copy32 (OrderID note);
          commit = copy32 (Commitment note)
      in eq\<lparr>orders := AList.update oid commit (orders eq)\<rparr>)"

definition Size :: "EpochQueue \<Rightarrow> nat" where
  "Size eq = length (orders eq)"

definition Exists :: "EpochQueue \<Rightarrow> OrderID \<Rightarrow> bool" where
  "Exists eq oid = (case map_of (orders eq) oid of Some _ \<Rightarrow> True | None \<Rightarrow> False)"

text \<open>The representation invariant: a map has one entry per key.\<close>

definition queue_ok :: "EpochQueue \<Rightarrow> bool" where
  "queue_ok eq = distinct (map fst (orders eq))"

subsection \<open>GenerateMatchProof\<close>

text \<open>
  The error of the completeness check carries the two lengths that
  \<^verbatim>\<open>fmt.Errorf\<close> prints: \<^verbatim>\<open>len(orderPreimages)\<close> and \<^verbatim>\<open>len(eq.orders)\<close>.
\<close>

datatype error = ErrUnmatched nat nat

text \<open>
  Go leaves the order of \<^verbatim>\<open>range\<close> over a map unspecified, and it may differ from
  one \<^verbatim>\<open>range\<close> statement to the next. The model takes the order as a parameter:
  \<open>rng i es\<close> is the sequence in which the \<open>i\<close>-th \<^verbatim>\<open>range\<close> statement of a call
  visits the entries \<open>es\<close>. Any such function that permutes its argument is a
  possible behaviour.
\<close>

type_synonym range_order =
  "nat \<Rightarrow> (OrderID \<times> Commitment) list \<Rightarrow> (OrderID \<times> Commitment) list"

definition range_ok :: "range_order \<Rightarrow> bool" where
  "range_ok rng = (\<forall>i es. mset (rng i es) = mset es)"

text \<open>\<^verbatim>\<open>for i := range misses { delete(eq.orders, misses[i]) }\<close>\<close>

fun remove_misses ::
  "OrderID list \<Rightarrow> (OrderID \<times> Commitment) list \<Rightarrow> (OrderID \<times> Commitment) list" where
  "remove_misses [] os = os"
| "remove_misses (m # misses) os = remove_misses misses (AList.delete m os)"

text \<open>
  The inner loop, over the entries in the order of this \<^verbatim>\<open>range\<close>: the first order
  whose commitment is \<open>commitment\<close>, where the loop breaks.
\<close>

fun find_commit :: "Commitment \<Rightarrow> (OrderID \<times> Commitment) list \<Rightarrow> OrderID option" where
  "find_commit commitment [] = None"
| "find_commit commitment ((oid, commit) # es) =
     (if commit = commitment then Some oid else find_commit commitment es)"

text \<open>
  The outer loop over the preimages; \<open>i\<close> counts the \<^verbatim>\<open>range\<close> statements over
  \<^verbatim>\<open>eq.orders\<close> executed so far, \<open>H\<close> is \<^verbatim>\<open>blake256.Sum256\<close>.
\<close>

fun match_preimages ::
  "(byte list \<Rightarrow> byte list) \<Rightarrow> range_order \<Rightarrow> (OrderID \<times> Commitment) list \<Rightarrow> nat \<Rightarrow>
   Preimage list \<Rightarrow> (OrderID \<times> Preimage) list \<Rightarrow> (OrderID \<times> Preimage) list" where
  "match_preimages H rng os i [] orderPreimages = orderPreimages"
| "match_preimages H rng os i (pimg # preimages) orderPreimages =
     match_preimages H rng os (Suc i) preimages
       (case find_commit (H pimg) (rng i os) of
          None \<Rightarrow> orderPreimages
        | Some oid \<Rightarrow> AList.update oid pimg orderPreimages)"

text \<open>\<^verbatim>\<open>orderPreimages[oid]\<close>: the zero value when the key is absent.\<close>

definition index_map :: "(OrderID \<times> Preimage) list \<Rightarrow> OrderID \<Rightarrow> Preimage" where
  "index_map m oid = (case map_of m oid of Some pimg \<Rightarrow> pimg | None \<Rightarrow> zero32)"

text \<open>
  The result is the queue after the call and the three values returned; \<open>None\<close> is
  a nil slice, respectively a nil error.
\<close>

type_synonym proof_result = "byte list option \<times> byte list option \<times> error option"

definition GenerateMatchProof ::
  "(byte list \<Rightarrow> byte list) \<Rightarrow> range_order \<Rightarrow> EpochQueue \<Rightarrow> Preimage list \<Rightarrow>
   OrderID list \<Rightarrow> EpochQueue \<times> proof_result" where
  "GenerateMatchProof H rng eq preimages misses =
     (let os = remove_misses misses (orders eq);
          eq' = eq\<lparr>orders := os\<rparr>;
          orderPreimages = match_preimages H rng os 0 preimages []
      in if length orderPreimages \<noteq> length os
         then (eq', None, None, Some (ErrUnmatched (length orderPreimages) (length os)))
         else
           let es = rng (length preimages) os;
               oids = sort_Slice bytes_less (map fst es);
               commits = sort_Slice bytes_less (map snd es);
               sbuff = concat (map (index_map orderPreimages) oids);
               seed = H sbuff;
               cbuff = concat commits;
               csum = H cbuff
           in (eq', Some seed, Some csum, None))"

text \<open>The three components of the returned triple.\<close>

definition seed_of :: "EpochQueue \<times> proof_result \<Rightarrow> byte list option" where
  "seed_of r = fst (snd r)"

definition csum_of :: "EpochQueue \<times> proof_result \<Rightarrow> byte list option" where
  "csum_of r = fst (snd (snd r))"

definition err_of :: "EpochQueue \<times> proof_result \<Rightarrow> error option" where
  "err_of r = snd (snd (snd r))"

text \<open>
  Concrete inputs need a concrete hash. \<open>blake256\<close> is outside this repository; the
  theorems hold for every function \<open>H\<close>, and the examples run with this stand-in,
  which is injective on 32-byte arrays.
\<close>

definition toy_hash :: "byte list \<Rightarrow> byte list" where
  "toy_hash bs = copy32 (rev bs)"

text \<open>Two \<^verbatim>\<open>range\<close> orders for the examples: as stored, and reversed at odd positions.\<close>

definition range_stored :: range_order where
  "range_stored i es = es"

definition range_flip :: range_order where
  "range_flip i es = (if even i then es else rev es)"

text \<open>\<^verbatim>\<open>[32]byte{b}\<close> and a note with the fields the queue reads.\<close>

definition arr :: "byte \<Rightarrow> byte list" where
  "arr b = copy32 [b]"

definition mk_note :: "OrderID \<Rightarrow> Commitment \<Rightarrow> EpochOrderNote" where
  "mk_note oid commit =
     \<lparr>MarketID = ''mkt'', Side = 1, Rate = 1, Quantity = 3, OrderID = oid, Commitment = commit\<rparr>"

text \<open>
  Three orders for the examples: order IDs \<^verbatim>\<open>{'a'}\<close>, \<^verbatim>\<open>{'b'}\<close>, \<^verbatim>\<open>{'c'}\<close> with the
  preimages \<^verbatim>\<open>{'3'}\<close>, \<^verbatim>\<open>{'1'}\<close>, \<^verbatim>\<open>{'2'}\<close>, so that the commitments of the
  stand-in hash ascend in the order b, c, a.
\<close>

definition oidA :: OrderID where "oidA = arr 97"
definition oidB :: OrderID where "oidB = arr 98"
definition oidC :: OrderID where "oidC = arr 99"

definition pimgA :: Preimage where "pimgA = arr 51"
definition pimgB :: Preimage where "pimgB = arr 49"
definition pimgC :: Preimage where "pimgC = arr 50"

definition noteA :: EpochOrderNote where "noteA = mk_note oidA (toy_hash pimgA)"
definition noteB :: EpochOrderNote where "noteB = mk_note oidB (toy_hash pimgB)"
definition noteC :: EpochOrderNote where "noteC = mk_note oidC (toy_hash pimgC)"

text \<open>
  A preimage that no order committed to, an order b that commits to the preimage
  of order a, and a second note for order a with another commitment.
\<close>

definition pimgX :: Preimage where "pimgX = arr 120"

definition noteDup :: EpochOrderNote where "noteDup = mk_note oidB (toy_hash pimgA)"

definition noteA2 :: EpochOrderNote where "noteA2 = mk_note oidA (toy_hash pimgB)"

definition queueABC :: EpochQueue where
  "queueABC = Enqueue (Enqueue (Enqueue NewEpochQueue noteA) noteB) noteC"

definition queueDup :: EpochQueue where
  "queueDup = Enqueue (Enqueue NewEpochQueue noteA) noteDup"

text \<open>A third \<^verbatim>\<open>range\<close> order: the first statement visits the entries by ascending key.\<close>

definition range_sorted_first :: range_order where
  "range_sorted_first i es = (if i = 0 then sort_key fst es else es)"

section \<open>Basic facts\<close>

lemma range_ok_stored: "range_ok range_stored"
  by (simp add: range_ok_def range_stored_def)

lemma range_ok_flip: "range_ok range_flip"
  by (simp add: range_ok_def range_flip_def)

lemma range_ok_sorted_first: "range_ok range_sorted_first"
  by (simp add: range_ok_def range_sorted_first_def)

lemma length_copy32: "length (copy32 bs) = 32"
  by (simp add: copy32_def)

lemma copy32_id: "length bs = 32 \<Longrightarrow> copy32 bs = bs"
  by (simp add: copy32_def)

lemma Exists_iff: "Exists eq oid \<longleftrightarrow> oid \<in> fst ` set (orders eq)"
proof -
  have "Exists eq oid \<longleftrightarrow> oid \<in> dom (map_of (orders eq))"
    by (auto simp: Exists_def split: option.splits)
  then show ?thesis
    by (simp add: dom_map_of_conv_image_fst)
qed

lemma Reset_New: "Reset eq = NewEpochQueue"
  by (simp add: Reset_def NewEpochQueue_def)

lemma queue_ok_New: "queue_ok NewEpochQueue"
  by (simp add: queue_ok_def NewEpochQueue_def)

lemma queue_ok_Reset: "queue_ok (Reset eq)"
  by (simp add: queue_ok_def Reset_def)

lemma queue_ok_Enqueue: "queue_ok eq \<Longrightarrow> queue_ok (Enqueue eq note)"
  by (simp add: queue_ok_def Enqueue_def Let_def distinct_update)

subsection \<open>Sorting by bytes.Compare is sorting in the lexicographic order\<close>

lemma bytes_less_iff: "bytes_less a b \<longleftrightarrow> a < b"
  unfolding bytes_less_def
  by (induction a b rule: bytes_Compare.induct) auto

lemma insert_by_insort: "insert_by bytes_less x ys = insort x ys"
  by (induction ys) (auto simp: bytes_less_iff)

lemma sort_Slice_sort: "sort_Slice bytes_less xs = sort xs"
  by (induction xs) (simp_all add: sort_Slice_def insert_by_insort)

subsection \<open>Removing the misses\<close>

lemma remove_misses_filter:
  "remove_misses misses os = filter (\<lambda>e. fst e \<notin> set misses) os"
proof (induction misses arbitrary: os)
  case Nil
  show ?case by simp
next
  case (Cons m misses)
  have "remove_misses (m # misses) os =
        filter (\<lambda>e. fst e \<notin> set misses) (filter (\<lambda>e. fst e \<noteq> m) os)"
    by (simp add: Cons.IH AList.delete_eq split_def eq_commute)
  also have "\<dots> = filter (\<lambda>e. fst e \<notin> set (m # misses)) os"
    by (auto intro: filter_cong)
  finally show ?case .
qed

lemma distinct_remove_misses:
  "distinct (map fst os) \<Longrightarrow> distinct (map fst (remove_misses misses os))"
  by (simp add: remove_misses_filter distinct_map_filter)

subsection \<open>The matching loops\<close>

lemma find_commit_map_of: "find_commit c es = map_of (map prod.swap es) c"
  by (induction es) auto

lemma find_commit_mem: "find_commit c es = Some oid \<Longrightarrow> (oid, c) \<in> set es"
  by (induction es) (auto split: if_splits)

lemma find_commit_None: "find_commit c es = None \<longleftrightarrow> c \<notin> snd ` set es"
  by (induction c es rule: find_commit.induct) (auto simp: image_iff)

lemma find_commit_perm:
  assumes "distinct (map snd os)" and "mset es = mset os"
  shows "find_commit c es = find_commit c os"
proof -
  have m: "mset (map snd es) = mset (map snd os)"
    using assms(2) by simp
  have d: "distinct (map snd es)"
    using assms(1) mset_eq_imp_distinct_iff [OF m] by simp
  have s: "set es = set os"
    using assms(2) by (rule mset_eq_setD)
  have "map_of (map prod.swap es) = map_of (map prod.swap os)"
    using d assms(1) s by (subst map_of_inject_set) (auto simp: comp_def)
  then show ?thesis
    by (simp add: find_commit_map_of)
qed

lemma find_commit_unique:
  assumes "distinct (map snd es)" and "(oid, c) \<in> set es"
  shows "find_commit c es = Some oid"
  using assms by (induction es) (auto simp: rev_image_eqI)

lemma distinct_match_preimages:
  "distinct (map fst opm) \<Longrightarrow> distinct (map fst (match_preimages H rng os i ps opm))"
  by (induction ps arbitrary: i opm) (auto simp: distinct_update split: option.splits)

lemma match_preimages_sound:
  assumes "range_ok rng"
    and "map_of (match_preimages H rng os i ps opm) oid = Some p"
  shows "(p \<in> set ps \<and> (oid, H p) \<in> set os) \<or> map_of opm oid = Some p"
  using assms(2)
proof (induction ps arbitrary: i opm)
  case Nil
  then show ?case by simp
next
  case (Cons q ps)
  have s: "set (rng i os) = set os"
    using assms(1) by (auto simp: range_ok_def dest: mset_eq_setD)
  show ?case
  proof (cases "find_commit (H q) (rng i os)")
    case None
    with Cons show ?thesis by fastforce
  next
    case (Some k)
    then have k: "(k, H q) \<in> set os"
      using find_commit_mem s by blast
    from Cons.prems Some
    have "map_of (match_preimages H rng os (Suc i) ps (AList.update k q opm)) oid = Some p"
      by simp
    from Cons.IH [OF this] k show ?thesis
      by (auto simp: update_conv' split: if_splits)
  qed
qed

lemma match_preimages_perm:
  assumes "distinct (map snd os)" and "mset os' = mset os"
    and "range_ok rng" and "range_ok rng'"
  shows "match_preimages H rng os i ps opm = match_preimages H rng' os' j ps opm"
proof (induction ps arbitrary: i j opm)
  case Nil
  show ?case by simp
next
  case (Cons q ps)
  have "find_commit (H q) (rng i os) = find_commit (H q) os"
    using assms(1,3) by (intro find_commit_perm) (auto simp: range_ok_def)
  moreover have "find_commit (H q) (rng' j os') = find_commit (H q) os"
    using assms(1,2,4) by (intro find_commit_perm) (auto simp: range_ok_def)
  ultimately show ?case
    using Cons.IH [of "Suc i" _ "Suc j"] by simp
qed


section \<open>The steps of GenerateMatchProof\<close>

lemma sort_mset_cong: "mset xs = mset ys \<Longrightarrow> sort xs = sort (ys :: 'a :: linorder list)"
  by (rule properties_for_sort) simp_all

lemma range_ok_mset: "range_ok rng \<Longrightarrow> mset (rng i es) = mset es"
  by (simp add: range_ok_def)

lemma range_ok_set: "range_ok rng \<Longrightarrow> set (rng i es) = set es"
  by (auto dest: range_ok_mset mset_eq_setD)

lemma sorted_oids:
  "range_ok rng \<Longrightarrow> sort_Slice bytes_less (map fst (rng i os)) = sort (map fst os)"
  unfolding sort_Slice_sort by (rule sort_mset_cong) (simp add: range_ok_mset)

lemma sorted_commits:
  "range_ok rng \<Longrightarrow> sort_Slice bytes_less (map snd (rng i os)) = sort (map snd os)"
  unfolding sort_Slice_sort by (rule sort_mset_cong) (simp add: range_ok_mset)

lemma GenerateMatchProof_error:
  assumes "length (match_preimages H rng (remove_misses misses (orders eq)) 0 preimages [])
           \<noteq> length (remove_misses misses (orders eq))"
  shows "GenerateMatchProof H rng eq preimages misses =
         (eq\<lparr>orders := remove_misses misses (orders eq)\<rparr>, None, None,
          Some (ErrUnmatched
            (length (match_preimages H rng (remove_misses misses (orders eq)) 0 preimages []))
            (length (remove_misses misses (orders eq)))))"
  using assms by (simp add: GenerateMatchProof_def Let_def)

lemma GenerateMatchProof_success:
  assumes "range_ok rng"
    and "length (match_preimages H rng (remove_misses misses (orders eq)) 0 preimages [])
           = length (remove_misses misses (orders eq))"
  shows "GenerateMatchProof H rng eq preimages misses =
         (eq\<lparr>orders := remove_misses misses (orders eq)\<rparr>,
          Some (H (concat (map
            (index_map (match_preimages H rng (remove_misses misses (orders eq)) 0 preimages []))
            (sort (map fst (remove_misses misses (orders eq))))))),
          Some (H (concat (sort (map snd (remove_misses misses (orders eq)))))),
          None)"
  using assms by (simp add: GenerateMatchProof_def Let_def sorted_oids sorted_commits)

lemma orders_GenerateMatchProof:
  "orders (fst (GenerateMatchProof H rng eq preimages misses)) = remove_misses misses (orders eq)"
  by (simp add: GenerateMatchProof_def Let_def)

lemma length_distinct_keys: "distinct (map fst al) \<Longrightarrow> length al = card (fst ` set al)"
  using distinct_card [of "map fst al"] by simp

lemma match_preimages_keys:
  assumes "range_ok rng"
  shows "fst ` set (match_preimages H rng os i ps []) \<subseteq>
         {oid. \<exists>p \<in> set ps. (oid, H p) \<in> set os}"
proof
  fix oid assume "oid \<in> fst ` set (match_preimages H rng os i ps [])"
  then have "oid \<in> dom (map_of (match_preimages H rng os i ps []))"
    by (simp add: dom_map_of_conv_image_fst)
  then obtain p where "map_of (match_preimages H rng os i ps []) oid = Some p"
    by blast
  from match_preimages_sound [OF assms this]
  show "oid \<in> {oid. \<exists>p \<in> set ps. (oid, H p) \<in> set os}"
    by auto
qed

lemma unmatched_order_shorter:
  assumes "range_ok rng" and "distinct (map fst os)"
    and "(oid, c) \<in> set os" and "\<forall>p \<in> set ps. H p \<noteq> c"
  shows "length (match_preimages H rng os i ps []) < length os"
proof -
  let ?opm = "match_preimages H rng os i ps []"
  have d: "distinct (map fst ?opm)"
    by (rule distinct_match_preimages) simp
  have "oid \<notin> fst ` set ?opm"
  proof
    assume "oid \<in> fst ` set ?opm"
    with match_preimages_keys [OF assms(1)]
    obtain p where p: "p \<in> set ps" "(oid, H p) \<in> set os"
      by blast
    with assms(2,3) have "H p = c"
      by (meson eq_key_imp_eq_value)
    with assms(4) p show False by blast
  qed
  moreover have "fst ` set ?opm \<subseteq> fst ` set os"
    using match_preimages_keys [OF assms(1), of H os i ps] by force
  moreover have "oid \<in> fst ` set os"
    using assms(3) by force
  ultimately have "fst ` set ?opm \<subset> fst ` set os"
    by blast
  then have "card (fst ` set ?opm) < card (fst ` set os)"
    by (intro psubset_card_mono) simp_all
  then show ?thesis
    using d assms(2) by (simp add: length_distinct_keys)
qed

lemma range_ok_Nil: "range_ok rng \<Longrightarrow> rng i [] = []"
  using range_ok_mset [of rng i "[]"] by simp

lemma match_preimages_empty:
  "range_ok rng \<Longrightarrow> match_preimages H rng [] i ps opm = opm"
  by (induction ps arbitrary: i) (simp_all add: range_ok_Nil)

lemma insort_map_key:
  "insort (f x) (map f ys) = map f (insort_key f x ys)"
  by (induction ys) simp_all

lemma sort_map_key: "sort (map f xs) = map f (sort_key f xs)"
  by (induction xs) (simp_all add: insort_map_key)

lemma match_preimages_dom_mono:
  "oid \<in> fst ` set opm \<Longrightarrow> oid \<in> fst ` set (match_preimages H rng os i ps opm)"
proof (induction ps arbitrary: i opm)
  case Nil
  then show ?case by simp
next
  case (Cons q ps)
  then show ?case
    by (cases "find_commit (H q) (rng i os)") (simp_all add: dom_update)
qed

lemma match_preimages_complete:
  assumes "range_ok rng" and "distinct (map snd os)"
    and "(oid, c) \<in> set os" and "p \<in> set ps" and "H p = c"
  shows "oid \<in> fst ` set (match_preimages H rng os i ps opm)"
  using assms(4)
proof (induction ps arbitrary: i opm)
  case Nil
  then show ?case by simp
next
  case (Cons q ps)
  show ?case
  proof (cases "H q = c")
    case True
    have "find_commit (H q) (rng i os) = find_commit (H q) os"
      by (rule find_commit_perm [OF assms(2) range_ok_mset [OF assms(1)]])
    also have "\<dots> = find_commit c os"
      using True by simp
    also have "\<dots> = Some oid"
      using assms(2,3) by (rule find_commit_unique)
    finally show ?thesis
      by (simp add: match_preimages_dom_mono dom_update)
  next
    case False
    with Cons.prems assms(5) have "p \<in> set ps"
      by auto
    from Cons.IH [OF this] show ?thesis
      by simp
  qed
qed

lemma match_preimages_all_matched:
  assumes "range_ok rng" and "distinct (map fst os)" and "distinct (map snd os)"
    and "\<forall>e \<in> set os. \<exists>p \<in> set ps. H p = snd e"
  shows "length (match_preimages H rng os i ps []) = length os"
proof -
  let ?opm = "match_preimages H rng os i ps []"
  have "fst ` set ?opm \<subseteq> fst ` set os"
    using match_preimages_keys [OF assms(1), of H os i ps] by force
  moreover have "fst ` set os \<subseteq> fst ` set ?opm"
  proof
    fix oid assume "oid \<in> fst ` set os"
    then obtain c where c: "(oid, c) \<in> set os"
      by auto
    with assms(4) obtain p where "p \<in> set ps" "H p = c"
      by fastforce
    with c show "oid \<in> fst ` set ?opm"
      using match_preimages_complete [OF assms(1,3)] by blast
  qed
  ultimately have "fst ` set ?opm = fst ` set os"
    by blast
  moreover have "distinct (map fst ?opm)"
    by (rule distinct_match_preimages) simp
  ultimately show ?thesis
    using assms(2) by (simp add: length_distinct_keys)
qed

lemma update_new_key: "k \<notin> fst ` set al \<Longrightarrow> AList.update k v al = al @ [(k, v)]"
  by (induction al) auto

lemma orders_foldl_Enqueue:
  assumes "distinct (map (\<lambda>n. copy32 (OrderID n)) ns)"
    and "\<forall>n \<in> set ns. copy32 (OrderID n) \<notin> fst ` set (orders q)"
  shows "orders (foldl Enqueue q ns) =
         orders q @ map (\<lambda>n. (copy32 (OrderID n), copy32 (Commitment n))) ns"
  using assms
proof (induction ns arbitrary: q)
  case Nil
  show ?case by simp
next
  case (Cons n ns)
  have o: "orders (Enqueue q n) = orders q @ [(copy32 (OrderID n), copy32 (Commitment n))]"
    using Cons.prems(2) by (simp add: Enqueue_def Let_def update_new_key)
  have "\<forall>m \<in> set ns. copy32 (OrderID m) \<notin> fst ` set (orders (Enqueue q n))"
    using Cons.prems unfolding o by (auto simp: image_iff)
  moreover have "distinct (map (\<lambda>n. copy32 (OrderID n)) ns)"
    using Cons.prems(1) by simp
  ultimately have "orders (foldl Enqueue (Enqueue q n) ns) =
        orders (Enqueue q n) @ map (\<lambda>n. (copy32 (OrderID n), copy32 (Commitment n))) ns"
    by (rule Cons.IH [rotated])
  then show ?case
    by (simp add: o)
qed

lemma proof_perm:
  assumes "range_ok rng" and "range_ok rng'"
    and "mset (orders eq') = mset (orders eq)"
    and "distinct (map snd (remove_misses misses (orders eq)))"
  shows "snd (GenerateMatchProof H rng eq preimages misses) =
         snd (GenerateMatchProof H rng' eq' preimages misses)"
proof -
  let ?r = "remove_misses misses (orders eq)" and ?r' = "remove_misses misses (orders eq')"
  have m: "mset ?r' = mset ?r"
    using assms(3) by (simp add: remove_misses_filter)
  have opm: "match_preimages H rng ?r 0 preimages [] = match_preimages H rng' ?r' 0 preimages []"
    by (rule match_preimages_perm [OF assms(4) m assms(1,2)])
  have len: "length ?r' = length ?r"
    using arg_cong [OF m, of size] by simp
  have ks: "sort (map fst ?r') = sort (map fst ?r)"
    by (rule sort_mset_cong) (simp add: m)
  have cs: "sort (map snd ?r') = sort (map snd ?r)"
    by (rule sort_mset_cong) (simp add: m)
  show ?thesis
  proof (cases "length (match_preimages H rng ?r 0 preimages []) = length ?r")
    case True
    then have "length (match_preimages H rng' ?r' 0 preimages []) = length ?r'"
      by (simp add: opm len)
    from GenerateMatchProof_success [OF assms(1) True]
      GenerateMatchProof_success [OF assms(2) this]
    show ?thesis
      by (simp add: opm ks cs)
  next
    case False
    then have "length (match_preimages H rng' ?r' 0 preimages []) \<noteq> length ?r'"
      by (simp add: opm len)
    from GenerateMatchProof_error [OF False] GenerateMatchProof_error [OF this]
    show ?thesis
      by (simp add: opm len)
  qed
qed

lemma match_preimages_filter:
  assumes "range_ok rng" and "distinct (map snd os)"
  shows "match_preimages H rng os i ps opm =
         match_preimages H rng os j (filter (\<lambda>p. H p \<in> snd ` set os) ps) opm"
proof (induction ps arbitrary: i j opm)
  case Nil
  show ?case by simp
next
  case (Cons q ps)
  have fi: "find_commit (H q) (rng i os) = find_commit (H q) os"
    by (rule find_commit_perm [OF assms(2) range_ok_mset [OF assms(1)]])
  have fj: "find_commit (H q) (rng j os) = find_commit (H q) os"
    by (rule find_commit_perm [OF assms(2) range_ok_mset [OF assms(1)]])
  show ?case
  proof (cases "H q \<in> snd ` set os")
    case True
    then show ?thesis
      using Cons.IH [of "Suc i" _ "Suc j"] by (simp add: fi fj)
  next
    case False
    then have "find_commit (H q) os = None"
      by (simp add: find_commit_None)
    with False show ?thesis
      using Cons.IH [of "Suc i" opm j] by (simp add: fi)
  qed
qed

section \<open>Facts about the example values\<close>

lemma arr_Cons: "arr a = a # replicate 31 0"
  by (simp add: arr_def copy32_def)

lemma toy_hash_arr: "toy_hash (arr a) = replicate 31 0 @ [a]"
  by (simp add: toy_hash_def arr_Cons copy32_def)

lemma length_arr: "length (arr a) = 32"
  by (simp add: arr_def length_copy32)

lemma length_toy_hash: "length (toy_hash bs) = 32"
  by (simp add: toy_hash_def length_copy32)

lemma arr_eq_iff: "arr a = arr b \<longleftrightarrow> a = b"
  by (simp add: arr_Cons)

lemma arr_less_iff: "arr a < arr b \<longleftrightarrow> a < b"
  by (simp add: arr_Cons)

lemma append_less_iff: "xs @ ys < xs @ zs \<longleftrightarrow> ys < (zs :: 'a :: linorder list)"
  by (induction xs) simp_all

lemma toy_hash_arr_eq_iff: "toy_hash (arr a) = toy_hash (arr b) \<longleftrightarrow> a = b"
  by (simp add: toy_hash_arr)

lemma toy_hash_arr_less_iff: "toy_hash (arr a) < toy_hash (arr b) \<longleftrightarrow> a < b"
  by (simp add: toy_hash_arr append_less_iff)

lemma oid_facts:
  "oidA \<noteq> oidB" "oidA \<noteq> oidC" "oidB \<noteq> oidC"
  "oidB \<noteq> oidA" "oidC \<noteq> oidA" "oidC \<noteq> oidB"
  by (simp_all add: oidA_def oidB_def oidC_def arr_eq_iff)

lemma oid_less_facts:
  "oidA < oidB" "oidB < oidC" "oidA < oidC"
  "\<not> oidB < oidA" "\<not> oidC < oidB" "\<not> oidC < oidA"
  "\<not> oidA < oidA" "\<not> oidB < oidB" "\<not> oidC < oidC"
  by (simp_all add: oidA_def oidB_def oidC_def arr_less_iff)

lemma commit_neq_facts:
  "toy_hash pimgA \<noteq> toy_hash pimgB" "toy_hash pimgA \<noteq> toy_hash pimgC"
  "toy_hash pimgB \<noteq> toy_hash pimgA" "toy_hash pimgB \<noteq> toy_hash pimgC"
  "toy_hash pimgC \<noteq> toy_hash pimgA" "toy_hash pimgC \<noteq> toy_hash pimgB"
  "toy_hash pimgX \<noteq> toy_hash pimgA" "toy_hash pimgX \<noteq> toy_hash pimgB"
  "toy_hash pimgX \<noteq> toy_hash pimgC"
  "toy_hash pimgA \<noteq> toy_hash pimgX" "toy_hash pimgB \<noteq> toy_hash pimgX"
  "toy_hash pimgC \<noteq> toy_hash pimgX"
  by (simp_all add: pimgA_def pimgB_def pimgC_def pimgX_def toy_hash_arr_eq_iff)

lemma commit_less_facts:
  "toy_hash pimgB < toy_hash pimgC" "toy_hash pimgC < toy_hash pimgA"
  "toy_hash pimgB < toy_hash pimgA"
  "\<not> toy_hash pimgC < toy_hash pimgB" "\<not> toy_hash pimgA < toy_hash pimgC"
  "\<not> toy_hash pimgA < toy_hash pimgB"
  "\<not> toy_hash pimgA < toy_hash pimgA" "\<not> toy_hash pimgB < toy_hash pimgB"
  "\<not> toy_hash pimgC < toy_hash pimgC"
  by (simp_all add: pimgA_def pimgB_def pimgC_def toy_hash_arr_less_iff)

lemma copy32_oid: "copy32 oidA = oidA" "copy32 oidB = oidB" "copy32 oidC = oidC"
  by (simp_all add: oidA_def oidB_def oidC_def copy32_id length_arr)

lemma copy32_toy_hash: "copy32 (toy_hash bs) = toy_hash bs"
  by (simp add: copy32_id length_toy_hash)

lemma orders_queueABC:
  "orders queueABC =
     [(oidA, toy_hash pimgA), (oidB, toy_hash pimgB), (oidC, toy_hash pimgC)]"
  by (simp add: queueABC_def Enqueue_def Let_def NewEpochQueue_def noteA_def noteB_def noteC_def
      mk_note_def copy32_oid copy32_toy_hash oid_facts)

lemma orders_queueDup:
  "orders queueDup = [(oidA, toy_hash pimgA), (oidB, toy_hash pimgA)]"
  by (simp add: queueDup_def Enqueue_def Let_def NewEpochQueue_def noteA_def noteDup_def
      mk_note_def copy32_oid copy32_toy_hash oid_facts)

section \<open>Enqueue, Size, Exists and Reset\<close>

lemma length_update_alist:
  "length (AList.update k v al) =
     (if k \<in> fst ` set al then length al else length al + 1)"
  using arg_cong [OF update_keys [of k v al], of length] by simp

text \<open>
  C6. For a note whose order ID is not in the queue, after Enqueue the order exists
  and Size is one greater than before; after Reset, Size is 0 and no order that was
  in the queue exists. The order ID of a note is the array that Enqueue copies the
  note's slice into.
\<close>

theorem Enqueue_Reset_Size_Exists:
  "(\<not> Exists eq (copy32 (OrderID note)) \<longrightarrow>
      Exists (Enqueue eq note) (copy32 (OrderID note)) \<and>
      Size (Enqueue eq note) = Size eq + 1) \<and>
   Size (Reset eq) = 0 \<and>
   (\<forall>oid. Exists eq oid \<longrightarrow> \<not> Exists (Reset eq) oid)"
proof -
  have "Exists (Enqueue eq note) (copy32 (OrderID note))"
    by (simp add: Exists_iff Enqueue_def Let_def dom_update)
  moreover have "Size (Enqueue eq note) = Size eq + 1"
    if "\<not> Exists eq (copy32 (OrderID note))"
    using that by (simp add: Size_def Enqueue_def Let_def length_update_alist Exists_iff)
  moreover have "Size (Reset eq) = 0"
    by (simp add: Size_def Reset_def)
  moreover have "\<not> Exists (Reset eq) oid" for oid
    by (simp add: Exists_iff Reset_def)
  ultimately show ?thesis
    by blast
qed

theorem Enqueue_Reset_Size_Exists_witness:
  "\<not> Exists (Enqueue NewEpochQueue noteA) (copy32 (OrderID noteB)) \<and>
   Exists (Enqueue (Enqueue NewEpochQueue noteA) noteB) (copy32 (OrderID noteB)) \<and>
   Size (Enqueue (Enqueue NewEpochQueue noteA) noteB) = Size (Enqueue NewEpochQueue noteA) + 1 \<and>
   Exists (Enqueue NewEpochQueue noteA) oidA \<and>
   Size (Reset (Enqueue NewEpochQueue noteA)) = 0 \<and>
   \<not> Exists (Reset (Enqueue NewEpochQueue noteA)) oidA"
proof -
  have a: "\<not> Exists (Enqueue NewEpochQueue noteA) (copy32 (OrderID noteB))"
    by (simp add: Exists_iff Enqueue_def NewEpochQueue_def noteA_def noteB_def mk_note_def
        oidA_def oidB_def arr_def copy32_def)
  have b: "Exists (Enqueue NewEpochQueue noteA) oidA"
    by (simp add: Exists_iff Enqueue_def NewEpochQueue_def noteA_def mk_note_def
        oidA_def arr_def copy32_def)
  show ?thesis
    using a b Enqueue_Reset_Size_Exists [of "Enqueue NewEpochQueue noteA" noteB]
    by blast
qed

text \<open>
  C7. Enqueue increases Size by at most one. The note's commitment is recorded for
  the note's order ID (the 32-byte array copied from the note's slice, the slice
  itself when it has 32 bytes); when the order ID was already in the queue, Size is
  unchanged; the entries of all other order IDs are unchanged.
\<close>

theorem Enqueue_frame:
  "Size (Enqueue eq note) \<le> Size eq + 1 \<and>
   map_of (orders (Enqueue eq note)) (copy32 (OrderID note)) = Some (copy32 (Commitment note)) \<and>
   (length (Commitment note) = 32 \<longrightarrow>
      map_of (orders (Enqueue eq note)) (copy32 (OrderID note)) = Some (Commitment note)) \<and>
   (Exists eq (copy32 (OrderID note)) \<longrightarrow> Size (Enqueue eq note) = Size eq) \<and>
   (\<forall>oid. oid \<noteq> copy32 (OrderID note) \<longrightarrow>
      map_of (orders (Enqueue eq note)) oid = map_of (orders eq) oid)"
proof -
  let ?k = "copy32 (OrderID note)" and ?v = "copy32 (Commitment note)"
  have "Size (Enqueue eq note) \<le> Size eq + 1"
    by (simp add: Size_def Enqueue_def Let_def length_update_alist)
  moreover have "map_of (orders (Enqueue eq note)) ?k = Some ?v"
    by (simp add: Enqueue_def Let_def update_conv')
  moreover have "Size (Enqueue eq note) = Size eq" if "Exists eq ?k"
    using that by (simp add: Size_def Enqueue_def Let_def length_update_alist Exists_iff)
  moreover have "map_of (orders (Enqueue eq note)) oid = map_of (orders eq) oid"
    if "oid \<noteq> ?k" for oid
    using that by (simp add: Enqueue_def Let_def update_conv')
  ultimately show ?thesis
    by (simp add: copy32_id)
qed

theorem Enqueue_frame_witness:
  "length (Commitment (mk_note oidA (toy_hash pimgB))) = 32 \<and>
   Exists (Enqueue (Enqueue NewEpochQueue noteA) noteC) (copy32 (OrderID (mk_note oidA (toy_hash pimgB)))) \<and>
   oidC \<noteq> copy32 (OrderID (mk_note oidA (toy_hash pimgB))) \<and>
   map_of (orders (Enqueue (Enqueue (Enqueue NewEpochQueue noteA) noteC) (mk_note oidA (toy_hash pimgB)))) oidA
     = Some (toy_hash pimgB) \<and>
   Size (Enqueue (Enqueue (Enqueue NewEpochQueue noteA) noteC) (mk_note oidA (toy_hash pimgB))) = 2 \<and>
   map_of (orders (Enqueue (Enqueue (Enqueue NewEpochQueue noteA) noteC) (mk_note oidA (toy_hash pimgB)))) oidC
     = Some (toy_hash pimgC)"
proof -
  let ?q = "Enqueue (Enqueue NewEpochQueue noteA) noteC"
  let ?n = "mk_note oidA (toy_hash pimgB)"
  have k: "copy32 (OrderID ?n) = oidA"
    by (simp add: mk_note_def oidA_def arr_def copy32_def)
  have cm: "Commitment ?n = toy_hash pimgB"
    by (simp add: mk_note_def)
  have l: "length (Commitment ?n) = 32"
    by (simp add: mk_note_def toy_hash_def length_copy32)
  have ne: "oidC \<noteq> oidA"
    by (simp add: oidA_def oidC_def arr_def copy32_def)
  have q: "orders ?q = [(oidA, toy_hash pimgA), (oidC, toy_hash pimgC)]"
    using ne by (simp add: Enqueue_def NewEpochQueue_def noteA_def noteC_def mk_note_def
        copy32_id oidA_def oidC_def arr_def length_copy32 toy_hash_def)
  have e: "Exists ?q oidA"
    by (simp add: Exists_iff q)
  have s: "Size ?q = 2"
    by (simp add: Size_def q)
  have c: "map_of (orders ?q) oidC = Some (toy_hash pimgC)"
    using ne by (simp add: q)
  show ?thesis
    using Enqueue_frame [of ?q ?n] l e s c ne by (simp add: k cm copy32_id)
qed

section \<open>Properties of GenerateMatchProof\<close>

lemma oid_le_facts:
  "oidA \<le> oidB" "oidB \<le> oidC" "oidA \<le> oidC"
  "\<not> oidB \<le> oidA" "\<not> oidC \<le> oidB" "\<not> oidC \<le> oidA"
  using oid_less_facts by (simp_all add: not_le less_imp_le)

lemma commit_le_facts:
  "toy_hash pimgB \<le> toy_hash pimgC" "toy_hash pimgC \<le> toy_hash pimgA"
  "toy_hash pimgB \<le> toy_hash pimgA"
  "\<not> toy_hash pimgC \<le> toy_hash pimgB" "\<not> toy_hash pimgA \<le> toy_hash pimgC"
  "\<not> toy_hash pimgA \<le> toy_hash pimgB"
  using commit_less_facts by (simp_all add: not_le less_imp_le)

lemmas eval_simps =
  GenerateMatchProof_def Let_def range_stored_def range_flip_def
  sort_Slice_def bytes_less_iff index_map_def AList.delete_eq
  oid_facts oid_less_facts oid_le_facts commit_neq_facts commit_less_facts commit_le_facts

text \<open>
  C1, amended. Let the queue hold the orders of \<open>ops\<close>, a list of pairs of an order ID
  and its preimage with distinct order IDs: the commitment of each order is the hash
  of its preimage. Let the commitments be pairwise distinct, the supplied preimages
  be the preimages of \<open>ops\<close> in any order, and there be no misses. Then
  GenerateMatchProof returns a nil error, seed = Hash of the preimages concatenated
  by ascending order ID, and checksum = Hash of the commitments concatenated in
  ascending order of the commitments themselves. The order is the lexicographic one
  on unsigned bytes, that of bytes.Compare (\<open>bytes_less_iff\<close>).
\<close>

theorem match_proof_value:
  assumes "range_ok rng"
    and "distinct (map fst ops)"
    and "distinct (map (\<lambda>(oid, pimg). H pimg) ops)"
    and "mset (orders eq) = mset (map (\<lambda>(oid, pimg). (oid, H pimg)) ops)"
    and "mset preimages = mset (map snd ops)"
  shows "snd (GenerateMatchProof H rng eq preimages []) =
         (Some (H (concat (map snd (sort_key fst ops)))),
          Some (H (concat (sort (map (\<lambda>(oid, pimg). H pimg) ops)))),
          None)"
proof -
  let ?os = "orders eq"
  let ?opm = "match_preimages H rng ?os 0 preimages []"
  have ks: "mset (map fst ?os) = mset (map fst ops)"
    using arg_cong [OF assms(4), of "image_mset fst"]
    by (simp add: multiset.map_comp comp_def split_def)
  have cs: "mset (map snd ?os) = mset (map (\<lambda>(oid, pimg). H pimg) ops)"
    using arg_cong [OF assms(4), of "image_mset snd"]
    by (simp add: multiset.map_comp comp_def split_def)
  have dk: "distinct (map fst ?os)"
    using assms(2) mset_eq_imp_distinct_iff [OF ks] by simp
  have dc: "distinct (map snd ?os)"
    using assms(3) mset_eq_imp_distinct_iff [OF cs] by simp
  have set_os: "set ?os = (\<lambda>(oid, pimg). (oid, H pimg)) ` set ops"
    using mset_eq_setD [OF assms(4)] by simp
  have set_ps: "set preimages = snd ` set ops"
    using mset_eq_setD [OF assms(5)] by simp
  have inj: "inj_on (\<lambda>(oid, pimg). H pimg) (set ops)"
    using assms(3) by (simp add: distinct_map)
  have all: "\<forall>e \<in> set ?os. \<exists>p \<in> set preimages. H p = snd e"
    unfolding set_os set_ps by force
  have len: "length ?opm = length ?os"
    by (rule match_preimages_all_matched [OF assms(1) dk dc all])
  have lookup: "index_map ?opm oid = p" if "(oid, p) \<in> set ops" for oid p
  proof -
    have m: "(oid, H p) \<in> set ?os"
      using that unfolding set_os by force
    have "p \<in> set preimages"
      using that unfolding set_ps by force
    from match_preimages_complete [OF assms(1) dc m this]
    have "oid \<in> dom (map_of ?opm)"
      by (simp add: dom_map_of_conv_image_fst)
    then obtain p' where p': "map_of ?opm oid = Some p'"
      by blast
    from match_preimages_sound [OF assms(1) this]
    have 1: "p' \<in> set preimages" and 2: "(oid, H p') \<in> set ?os"
      by simp_all
    from dk m 2 have h: "H p' = H p"
      by (meson eq_key_imp_eq_value)
    from 1 obtain oid' where o: "(oid', p') \<in> set ops"
      unfolding set_ps by auto
    from inj_onD [OF inj _ o that] h have "p' = p"
      by simp
    with p' show ?thesis
      by (simp add: index_map_def)
  qed
  have "sort (map fst ?os) = map fst (sort_key fst ops)"
    using sort_mset_cong [OF ks] by (simp add: sort_map_key)
  then have "map (index_map ?opm) (sort (map fst ?os)) =
             map (\<lambda>e. index_map ?opm (fst e)) (sort_key fst ops)"
    by simp
  also have "\<dots> = map snd (sort_key fst ops)"
    by (rule map_cong) (auto simp: lookup)
  finally have seed: "map (index_map ?opm) (sort (map fst ?os)) = map snd (sort_key fst ops)" .
  have csum: "sort (map snd ?os) = sort (map (\<lambda>(oid, pimg). H pimg) ops)"
    by (rule sort_mset_cong [OF cs])
  show ?thesis
    using GenerateMatchProof_success [OF assms(1), of H "[]" eq preimages] len
    by (simp add: seed csum)
qed

text \<open>
  The orders a, b, c enqueued in this order, the preimages supplied as b, c, a: the
  seed follows the order IDs (a, b, c), the checksum the commitments (b, c, a).
\<close>

theorem match_proof_value_witness:
  "range_ok range_flip \<and>
   distinct (map fst [(oidC, pimgC), (oidA, pimgA), (oidB, pimgB)]) \<and>
   distinct (map (\<lambda>(oid, pimg). toy_hash pimg) [(oidC, pimgC), (oidA, pimgA), (oidB, pimgB)]) \<and>
   mset (orders queueABC) =
     mset (map (\<lambda>(oid, pimg). (oid, toy_hash pimg)) [(oidC, pimgC), (oidA, pimgA), (oidB, pimgB)]) \<and>
   mset [pimgB, pimgC, pimgA] = mset (map snd [(oidC, pimgC), (oidA, pimgA), (oidB, pimgB)]) \<and>
   snd (GenerateMatchProof toy_hash range_flip queueABC [pimgB, pimgC, pimgA] []) =
     (Some (toy_hash (pimgA @ pimgB @ pimgC)),
      Some (toy_hash (toy_hash pimgB @ toy_hash pimgC @ toy_hash pimgA)),
      None)"
proof -
  let ?ops = "[(oidC, pimgC), (oidA, pimgA), (oidB, pimgB)]"
  have h2: "distinct (map fst ?ops)"
    by (simp add: oid_facts)
  have h3: "distinct (map (\<lambda>(oid, pimg). toy_hash pimg) ?ops)"
    by (simp add: commit_neq_facts)
  have h4: "mset (orders queueABC) = mset (map (\<lambda>(oid, pimg). (oid, toy_hash pimg)) ?ops)"
    by (simp add: orders_queueABC)
  have h5: "mset [pimgB, pimgC, pimgA] = mset (map snd ?ops)"
    by simp
  have "snd (GenerateMatchProof toy_hash range_flip queueABC [pimgB, pimgC, pimgA] []) =
     (Some (toy_hash (pimgA @ pimgB @ pimgC)),
      Some (toy_hash (toy_hash pimgB @ toy_hash pimgC @ toy_hash pimgA)),
      None)"
    using match_proof_value [OF range_ok_flip h2 h3 h4 h5]
    by (simp add: oid_le_facts commit_le_facts)
  with h2 h3 h4 h5 range_ok_flip show ?thesis
    by blast
qed

text \<open>
  C1 as stated fails when two orders hold the same commitment. Orders a and b both
  commit to the hash of one preimage. Supplied once, the preimage is matched to one
  of the two orders, whatever the hash and the \<^verbatim>\<open>range\<close> order are; supplied
  twice, it is matched to order a twice when both \<^verbatim>\<open>range\<close> statements start with a.
  The call returns the error of the completeness check.
\<close>

theorem duplicate_commitment_counterexample:
  "range_ok range_stored \<and>
   orders queueDup = [(oidA, toy_hash pimgA), (oidB, toy_hash pimgA)] \<and>
   oidA \<noteq> oidB \<and>
   GenerateMatchProof toy_hash range_stored queueDup [pimgA] [] =
     (queueDup, None, None, Some (ErrUnmatched 1 2)) \<and>
   GenerateMatchProof toy_hash range_stored queueDup [pimgA, pimgA] [] =
     (queueDup, None, None, Some (ErrUnmatched 1 2))"
  by (simp add: eval_simps orders_queueDup range_ok_stored)

lemma duplicate_commitment_any_hash:
  assumes "a \<noteq> b"
  shows "err_of (GenerateMatchProof H rng \<lparr>orders = [(a, H p), (b, H p)]\<rparr> [p] []) \<noteq> None"
  by (simp add: GenerateMatchProof_def Let_def err_of_def split: option.split)

text \<open>
  C2. When, after the misses are pruned, some order left in the queue has a
  commitment that is the hash of none of the supplied preimages, the call returns an
  error and both byte slices are nil.
\<close>

theorem unmatched_order_error:
  assumes "range_ok rng" and "queue_ok eq"
    and "(oid, commit) \<in> set (remove_misses misses (orders eq))"
    and "\<forall>pimg \<in> set preimages. H pimg \<noteq> commit"
  shows "seed_of (GenerateMatchProof H rng eq preimages misses) = None \<and>
         csum_of (GenerateMatchProof H rng eq preimages misses) = None \<and>
         err_of (GenerateMatchProof H rng eq preimages misses) \<noteq> None"
proof -
  have "distinct (map fst (remove_misses misses (orders eq)))"
    using assms(2) by (simp add: queue_ok_def distinct_remove_misses)
  from unmatched_order_shorter [OF assms(1) this assms(3,4), of 0]
  have "length (match_preimages H rng (remove_misses misses (orders eq)) 0 preimages [])
        \<noteq> length (remove_misses misses (orders eq))"
    by simp
  from GenerateMatchProof_error [OF this] show ?thesis
    by (simp add: seed_of_def csum_of_def err_of_def)
qed

text \<open>Three orders queued, the preimages of two supplied, no misses.\<close>

theorem unmatched_order_error_witness:
  "range_ok range_stored \<and> queue_ok queueABC \<and>
   (oidC, toy_hash pimgC) \<in> set (remove_misses [] (orders queueABC)) \<and>
   toy_hash pimgA \<noteq> toy_hash pimgC \<and> toy_hash pimgB \<noteq> toy_hash pimgC \<and>
   seed_of (GenerateMatchProof toy_hash range_stored queueABC [pimgA, pimgB] []) = None \<and>
   csum_of (GenerateMatchProof toy_hash range_stored queueABC [pimgA, pimgB] []) = None \<and>
   err_of (GenerateMatchProof toy_hash range_stored queueABC [pimgA, pimgB] []) \<noteq> None"
proof -
  have h2: "queue_ok queueABC"
    by (simp add: queue_ok_def orders_queueABC oid_facts)
  have h3: "(oidC, toy_hash pimgC) \<in> set (remove_misses [] (orders queueABC))"
    by (simp add: orders_queueABC)
  have h4: "\<forall>pimg \<in> set [pimgA, pimgB]. toy_hash pimg \<noteq> toy_hash pimgC"
    by (simp add: commit_neq_facts)
  show ?thesis
    using unmatched_order_error [OF range_ok_stored h2 h3 h4] range_ok_stored h2 h3
    by (simp add: commit_neq_facts)
qed

text \<open>
  C5. The variable orderPreimages of GenerateMatchProof, after the matching loops,
  is \<open>match_preimages H rng (remove_misses misses (orders eq)) 0 preimages []\<close>.
  In every run, successful or not, each of its associations of an order ID with a
  preimage is one where the hash of the preimage is the commitment that the queue
  records for the order ID (before the call, and after the misses are pruned), and
  the preimage is a supplied one; a preimage whose hash is no commitment of the
  pruned queue is associated with no order.
\<close>

theorem match_hash_link:
  assumes "range_ok rng" and "queue_ok eq"
  shows "(\<forall>oid pimg.
            (oid, pimg) \<in> set (match_preimages H rng (remove_misses misses (orders eq)) 0 preimages []) \<longrightarrow>
            map_of (orders eq) oid = Some (H pimg) \<and>
            map_of (remove_misses misses (orders eq)) oid = Some (H pimg) \<and>
            pimg \<in> set preimages) \<and>
         (\<forall>pimg. H pimg \<notin> snd ` set (remove_misses misses (orders eq)) \<longrightarrow>
            pimg \<notin> snd ` set (match_preimages H rng (remove_misses misses (orders eq)) 0 preimages []))"
proof -
  let ?os = "remove_misses misses (orders eq)"
  let ?opm = "match_preimages H rng ?os 0 preimages []"
  have dk: "distinct (map fst (orders eq))"
    using assms(2) by (simp add: queue_ok_def)
  have dr: "distinct (map fst ?os)"
    using dk by (rule distinct_remove_misses)
  have link: "pimg \<in> set preimages \<and> (oid, H pimg) \<in> set ?os"
    if "(oid, pimg) \<in> set ?opm" for oid pimg
  proof -
    have "distinct (map fst ?opm)"
      by (rule distinct_match_preimages) simp
    with that have "map_of ?opm oid = Some pimg"
      by simp
    from match_preimages_sound [OF assms(1) this] show ?thesis
      by simp
  qed
  have 1: "map_of (orders eq) oid = Some (H pimg) \<and> map_of ?os oid = Some (H pimg) \<and>
           pimg \<in> set preimages"
    if "(oid, pimg) \<in> set ?opm" for oid pimg
  proof -
    from link [OF that] have p: "pimg \<in> set preimages" and m: "(oid, H pimg) \<in> set ?os"
      by simp_all
    from m have "(oid, H pimg) \<in> set (orders eq)"
      by (simp add: remove_misses_filter)
    with dk dr m p show ?thesis
      by simp
  qed
  have 2: "pimg \<notin> snd ` set ?opm" if "H pimg \<notin> snd ` set ?os" for pimg
  proof
    assume "pimg \<in> snd ` set ?opm"
    then obtain oid where "(oid, pimg) \<in> set ?opm"
      by auto
    from link [OF this] that show False
      by force
  qed
  from 1 2 show ?thesis
    by blast
qed

text \<open>
  Four preimages for the three orders: \<open>pimgA\<close> is associated with order a, whose
  commitment is its hash, and \<open>pimgX\<close> with no order.
\<close>

theorem match_hash_link_witness:
  "range_ok range_stored \<and> queue_ok queueABC \<and>
   (oidA, pimgA) \<in> set (match_preimages toy_hash range_stored
      (remove_misses [] (orders queueABC)) 0 [pimgX, pimgA, pimgB, pimgC] []) \<and>
   map_of (orders queueABC) oidA = Some (toy_hash pimgA) \<and>
   toy_hash pimgX \<notin> snd ` set (remove_misses [] (orders queueABC)) \<and>
   pimgX \<notin> snd ` set (match_preimages toy_hash range_stored
      (remove_misses [] (orders queueABC)) 0 [pimgX, pimgA, pimgB, pimgC] [])"
proof -
  have h2: "queue_ok queueABC"
    by (simp add: queue_ok_def orders_queueABC oid_facts)
  have a: "(oidA, pimgA) \<in> set (match_preimages toy_hash range_stored
      (remove_misses [] (orders queueABC)) 0 [pimgX, pimgA, pimgB, pimgC] [])"
    by (simp add: orders_queueABC range_stored_def commit_neq_facts oid_facts)
  have x: "toy_hash pimgX \<notin> snd ` set (remove_misses [] (orders queueABC))"
    by (simp add: orders_queueABC commit_neq_facts)
  show ?thesis
    using match_hash_link [OF range_ok_stored h2, of toy_hash "[]" "[pimgX, pimgA, pimgB, pimgC]"]
      range_ok_stored h2 a x
    by blast
qed



text \<open>
  C8. When GenerateMatchProof returns an error, the queue after the call is the queue
  without the orders listed in misses: none of them exists in it, and when one of
  them was in the queue before the call the queue has changed.
\<close>

theorem error_not_atomic:
  assumes "err_of (GenerateMatchProof H rng eq preimages misses) \<noteq> None"
  shows "orders (fst (GenerateMatchProof H rng eq preimages misses)) =
           filter (\<lambda>e. fst e \<notin> set misses) (orders eq) \<and>
         (\<forall>oid \<in> set misses. \<not> Exists (fst (GenerateMatchProof H rng eq preimages misses)) oid) \<and>
         ((\<exists>oid \<in> set misses. Exists eq oid) \<longrightarrow>
            fst (GenerateMatchProof H rng eq preimages misses) \<noteq> eq)"
proof -
  let ?eq' = "fst (GenerateMatchProof H rng eq preimages misses)"
  have o: "orders ?eq' = filter (\<lambda>e. fst e \<notin> set misses) (orders eq)"
    by (simp add: orders_GenerateMatchProof remove_misses_filter)
  have n: "\<not> Exists ?eq' oid" if "oid \<in> set misses" for oid
    using that by (auto simp: Exists_iff o)
  have "?eq' \<noteq> eq" if "oid \<in> set misses" "Exists eq oid" for oid
    using n [OF that(1)] that(2) by auto
  with o n show ?thesis
    by blast
qed

text \<open>
  Order b is a miss and order c has no preimage: the call returns the error, and the
  queue has lost order b.
\<close>

theorem error_not_atomic_witness:
  "err_of (GenerateMatchProof toy_hash range_stored queueABC [pimgA] [oidB]) =
     Some (ErrUnmatched 1 2) \<and>
   Exists queueABC oidB \<and> Size queueABC = 3 \<and>
   \<not> Exists (fst (GenerateMatchProof toy_hash range_stored queueABC [pimgA] [oidB])) oidB \<and>
   Size (fst (GenerateMatchProof toy_hash range_stored queueABC [pimgA] [oidB])) = 2 \<and>
   fst (GenerateMatchProof toy_hash range_stored queueABC [pimgA] [oidB]) \<noteq> queueABC"
proof -
  have r: "GenerateMatchProof toy_hash range_stored queueABC [pimgA] [oidB] =
        (queueABC\<lparr>orders := [(oidA, toy_hash pimgA), (oidC, toy_hash pimgC)]\<rparr>,
         None, None, Some (ErrUnmatched 1 2))"
    by (simp add: eval_simps orders_queueABC)
  have h: "err_of (GenerateMatchProof toy_hash range_stored queueABC [pimgA] [oidB]) \<noteq> None"
    by (simp add: r err_of_def)
  have e: "Exists queueABC oidB"
    by (simp add: Exists_iff orders_queueABC)
  have s: "Size queueABC = 3"
    by (simp add: Size_def orders_queueABC)
  have s': "Size (fst (GenerateMatchProof toy_hash range_stored queueABC [pimgA] [oidB])) = 2"
    by (simp add: r Size_def)
  have v: "err_of (GenerateMatchProof toy_hash range_stored queueABC [pimgA] [oidB]) =
     Some (ErrUnmatched 1 2)"
    by (simp add: r err_of_def)
  show ?thesis
    using error_not_atomic [OF h] e s s' v by simp
qed

text \<open>
  C10. When every order of the queue is listed in misses, so that the queue is empty
  after the pruning, GenerateMatchProof returns a nil error, seed = Hash of the
  empty byte string and checksum = Hash of the empty byte string, whatever
  preimages are supplied; so it does on a queue just reset with no preimages.
\<close>

theorem empty_queue_proof:
  assumes "range_ok rng"
  shows "(fst ` set (orders eq) \<subseteq> set misses \<longrightarrow>
            GenerateMatchProof H rng eq preimages misses =
              (eq\<lparr>orders := []\<rparr>, Some (H []), Some (H []), None)) \<and>
         GenerateMatchProof H rng (Reset eq) [] [] = (Reset eq, Some (H []), Some (H []), None)"
proof -
  have 1: "GenerateMatchProof H rng q ps ms = (q\<lparr>orders := []\<rparr>, Some (H []), Some (H []), None)"
    if "fst ` set (orders q) \<subseteq> set ms" for q ps ms
  proof -
    have e: "remove_misses ms (orders q) = []"
      using that by (auto simp: remove_misses_filter filter_empty_conv)
    show ?thesis
      using GenerateMatchProof_success [OF assms, of H ms q ps]
      by (simp add: e match_preimages_empty [OF assms])
  qed
  have "GenerateMatchProof H rng (Reset eq) [] [] =
        ((Reset eq)\<lparr>orders := []\<rparr>, Some (H []), Some (H []), None)"
    by (rule 1) (simp add: Reset_def)
  then have "GenerateMatchProof H rng (Reset eq) [] [] = (Reset eq, Some (H []), Some (H []), None)"
    by (simp add: Reset_def)
  with 1 show ?thesis
    by blast
qed

text \<open>All three orders are misses; and the queue after Reset.\<close>

theorem empty_queue_proof_witness:
  "range_ok range_flip \<and>
   fst ` set (orders queueABC) \<subseteq> set [oidC, oidA, oidB] \<and>
   GenerateMatchProof toy_hash range_flip queueABC [pimgA] [oidC, oidA, oidB] =
     (queueABC\<lparr>orders := []\<rparr>, Some (toy_hash []), Some (toy_hash []), None) \<and>
   GenerateMatchProof toy_hash range_flip (Reset queueABC) [] [] =
     (Reset queueABC, Some (toy_hash []), Some (toy_hash []), None) \<and>
   Size (Reset queueABC) = 0"
proof -
  have h: "fst ` set (orders queueABC) \<subseteq> set [oidC, oidA, oidB]"
    by (simp add: orders_queueABC)
  have s: "Size (Reset queueABC) = 0"
    by (simp add: Size_def Reset_def)
  show ?thesis
    using empty_queue_proof [OF range_ok_flip, of queueABC "[oidC, oidA, oidB]" toy_hash "[pimgA]"]
      range_ok_flip h s
    by simp
qed

text \<open>
  C3, amended. For notes with pairwise distinct order IDs, whose commitments are
  pairwise distinct among the orders not listed in misses, enqueueing the notes into
  a new queue (a queue after Reset is one, \<open>Reset_New\<close>) in the order of either of
  two permutations and calling GenerateMatchProof with the same preimages and misses
  returns the same seed, checksum and error, whatever the \<^verbatim>\<open>range\<close> orders of the
  two calls are.
\<close>

theorem enqueue_order_independent:
  assumes "range_ok rng" and "range_ok rng'"
    and "mset ns' = mset ns"
    and "distinct (map (\<lambda>n. copy32 (OrderID n)) ns)"
    and "distinct (map (\<lambda>n. copy32 (Commitment n))
           (filter (\<lambda>n. copy32 (OrderID n) \<notin> set misses) ns))"
  shows "snd (GenerateMatchProof H rng (foldl Enqueue NewEpochQueue ns) preimages misses) =
         snd (GenerateMatchProof H rng' (foldl Enqueue NewEpochQueue ns') preimages misses)"
proof -
  let ?kv = "\<lambda>n. (copy32 (OrderID n), copy32 (Commitment n))"
  have "mset (map (\<lambda>n. copy32 (OrderID n)) ns') = mset (map (\<lambda>n. copy32 (OrderID n)) ns)"
    using assms(3) by simp
  from mset_eq_imp_distinct_iff [OF this] assms(4)
  have d': "distinct (map (\<lambda>n. copy32 (OrderID n)) ns')"
    by simp
  have o: "orders (foldl Enqueue NewEpochQueue ns) = map ?kv ns"
    using orders_foldl_Enqueue [OF assms(4), of NewEpochQueue]
    by (simp add: NewEpochQueue_def)
  have o': "orders (foldl Enqueue NewEpochQueue ns') = map ?kv ns'"
    using orders_foldl_Enqueue [OF d', of NewEpochQueue]
    by (simp add: NewEpochQueue_def)
  have m: "mset (orders (foldl Enqueue NewEpochQueue ns')) =
           mset (orders (foldl Enqueue NewEpochQueue ns))"
    by (simp add: o o' assms(3))
  have "map snd (remove_misses misses (map ?kv ns)) =
        map (\<lambda>n. copy32 (Commitment n)) (filter (\<lambda>n. copy32 (OrderID n) \<notin> set misses) ns)"
    by (simp add: remove_misses_filter filter_map comp_def)
  with assms(5)
  have dc: "distinct (map snd (remove_misses misses (orders (foldl Enqueue NewEpochQueue ns))))"
    by (simp add: o)
  show ?thesis
    by (rule proof_perm [OF assms(1,2) m dc])
qed

lemma note_fields:
  "copy32 (OrderID noteA) = oidA" "copy32 (OrderID noteB) = oidB"
  "copy32 (OrderID noteC) = oidC" "copy32 (OrderID noteDup) = oidB"
  "copy32 (OrderID noteA2) = oidA"
  "copy32 (Commitment noteA) = toy_hash pimgA" "copy32 (Commitment noteB) = toy_hash pimgB"
  "copy32 (Commitment noteC) = toy_hash pimgC" "copy32 (Commitment noteDup) = toy_hash pimgA"
  "copy32 (Commitment noteA2) = toy_hash pimgB"
  by (simp_all add: noteA_def noteB_def noteC_def noteDup_def noteA2_def mk_note_def
      copy32_oid copy32_toy_hash)

text \<open>
  The notes of a, b, c enqueued in this order and in the order c, a, b, with b a miss,
  under two different \<^verbatim>\<open>range\<close> orders.
\<close>

theorem enqueue_order_independent_witness:
  "range_ok range_stored \<and> range_ok range_flip \<and>
   mset [noteC, noteA, noteB] = mset [noteA, noteB, noteC] \<and>
   distinct (map (\<lambda>n. copy32 (OrderID n)) [noteA, noteB, noteC]) \<and>
   distinct (map (\<lambda>n. copy32 (Commitment n))
      (filter (\<lambda>n. copy32 (OrderID n) \<notin> set [oidB]) [noteA, noteB, noteC])) \<and>
   snd (GenerateMatchProof toy_hash range_stored
          (foldl Enqueue NewEpochQueue [noteA, noteB, noteC]) [pimgA, pimgC] [oidB]) =
   snd (GenerateMatchProof toy_hash range_flip
          (foldl Enqueue NewEpochQueue [noteC, noteA, noteB]) [pimgA, pimgC] [oidB]) \<and>
   snd (GenerateMatchProof toy_hash range_stored
          (foldl Enqueue NewEpochQueue [noteA, noteB, noteC]) [pimgA, pimgC] [oidB]) =
     (Some (toy_hash (pimgA @ pimgC)), Some (toy_hash (toy_hash pimgC @ toy_hash pimgA)), None)"
proof -
  have h3: "mset [noteC, noteA, noteB] = mset [noteA, noteB, noteC]"
    by simp
  have h4: "distinct (map (\<lambda>n. copy32 (OrderID n)) [noteA, noteB, noteC])"
    by (simp add: note_fields oid_facts)
  have h5: "distinct (map (\<lambda>n. copy32 (Commitment n))
      (filter (\<lambda>n. copy32 (OrderID n) \<notin> set [oidB]) [noteA, noteB, noteC]))"
    by (simp add: note_fields oid_facts commit_neq_facts)
  have q: "foldl Enqueue NewEpochQueue [noteA, noteB, noteC] = queueABC"
    by (simp add: queueABC_def)
  have v: "snd (GenerateMatchProof toy_hash range_stored
          (foldl Enqueue NewEpochQueue [noteA, noteB, noteC]) [pimgA, pimgC] [oidB]) =
     (Some (toy_hash (pimgA @ pimgC)), Some (toy_hash (toy_hash pimgC @ toy_hash pimgA)), None)"
    unfolding q by (simp add: eval_simps orders_queueABC)
  show ?thesis
    using enqueue_order_independent [OF range_ok_stored range_ok_flip h3 h4 h5,
        of toy_hash "[pimgA, pimgC]"]
      range_ok_stored range_ok_flip h3 h4 h5 v
    by blast
qed

text \<open>
  C3 as stated fails in two ways. Two notes with the same order ID and different
  commitments: the note enqueued last wins, so the two enqueue orders leave
  different commitments for the order, and with the preimage of one of them the
  call fails after one enqueue order and succeeds after the other. Two notes with
  different order IDs and the same commitment, the preimage supplied twice: when
  the first \<^verbatim>\<open>range\<close> statement starts at the smallest order ID and the second at the
  order enqueued first, the call fails after one enqueue order and succeeds after
  the other.
\<close>

theorem enqueue_order_counterexample:
  "range_ok range_stored \<and> range_ok range_sorted_first \<and>
   snd (GenerateMatchProof toy_hash range_stored
          (foldl Enqueue NewEpochQueue [noteA, noteA2]) [pimgA] []) =
     (None, None, Some (ErrUnmatched 0 1)) \<and>
   snd (GenerateMatchProof toy_hash range_stored
          (foldl Enqueue NewEpochQueue [noteA2, noteA]) [pimgA] []) =
     (Some (toy_hash pimgA), Some (toy_hash (toy_hash pimgA)), None) \<and>
   snd (GenerateMatchProof toy_hash range_sorted_first
          (foldl Enqueue NewEpochQueue [noteA, noteDup]) [pimgA, pimgA] []) =
     (None, None, Some (ErrUnmatched 1 2)) \<and>
   snd (GenerateMatchProof toy_hash range_sorted_first
          (foldl Enqueue NewEpochQueue [noteDup, noteA]) [pimgA, pimgA] []) =
     (Some (toy_hash (pimgA @ pimgA)), Some (toy_hash (toy_hash pimgA @ toy_hash pimgA)), None)"
proof -
  have 1: "orders (Enqueue (Enqueue NewEpochQueue noteA) noteA2) = [(oidA, toy_hash pimgB)]"
    by (simp add: Enqueue_def Let_def NewEpochQueue_def note_fields)
  have 2: "orders (Enqueue (Enqueue NewEpochQueue noteA2) noteA) = [(oidA, toy_hash pimgA)]"
    by (simp add: Enqueue_def Let_def NewEpochQueue_def note_fields)
  have 3: "orders (Enqueue (Enqueue NewEpochQueue noteA) noteDup) =
           [(oidA, toy_hash pimgA), (oidB, toy_hash pimgA)]"
    by (simp add: Enqueue_def Let_def NewEpochQueue_def note_fields oid_facts)
  have 4: "orders (Enqueue (Enqueue NewEpochQueue noteDup) noteA) =
           [(oidB, toy_hash pimgA), (oidA, toy_hash pimgA)]"
    by (simp add: Enqueue_def Let_def NewEpochQueue_def note_fields oid_facts)
  have a: "snd (GenerateMatchProof toy_hash range_stored
          (foldl Enqueue NewEpochQueue [noteA, noteA2]) [pimgA] []) =
     (None, None, Some (ErrUnmatched 0 1))"
    by (simp add: eval_simps 1)
  have b: "snd (GenerateMatchProof toy_hash range_stored
          (foldl Enqueue NewEpochQueue [noteA2, noteA]) [pimgA] []) =
     (Some (toy_hash pimgA), Some (toy_hash (toy_hash pimgA)), None)"
    by (simp add: eval_simps 2)
  have c: "snd (GenerateMatchProof toy_hash range_sorted_first
          (foldl Enqueue NewEpochQueue [noteA, noteDup]) [pimgA, pimgA] []) =
     (None, None, Some (ErrUnmatched 1 2))"
    by (simp add: eval_simps range_sorted_first_def 3)
  have d: "snd (GenerateMatchProof toy_hash range_sorted_first
          (foldl Enqueue NewEpochQueue [noteDup, noteA]) [pimgA, pimgA] []) =
     (Some (toy_hash (pimgA @ pimgA)), Some (toy_hash (toy_hash pimgA @ toy_hash pimgA)), None)"
    by (simp add: eval_simps range_sorted_first_def 4)
  from a b c d range_ok_stored range_ok_sorted_first show ?thesis
    by blast
qed

text \<open>
  C9, amended. Let the commitments of the orders left after pruning the misses be
  pairwise distinct, and each be the hash of a supplied preimage. Adding, anywhere
  among the supplied preimages, extra preimages whose hashes are no commitment of
  an order left in the queue does not change the result: the call succeeds, and it
  returns the same queue, seed and checksum as without the extra preimages.
  \<open>shuffles preimages extras\<close> are the lists that interleave the two lists.
\<close>

theorem surplus_preimages:
  assumes "range_ok rng" and "queue_ok eq"
    and "distinct (map snd (remove_misses misses (orders eq)))"
    and "\<forall>e \<in> set (remove_misses misses (orders eq)). \<exists>pimg \<in> set preimages. H pimg = snd e"
    and "\<forall>x \<in> set extras. H x \<notin> snd ` set (remove_misses misses (orders eq))"
    and "preimages' \<in> shuffles preimages extras"
  shows "err_of (GenerateMatchProof H rng eq preimages' misses) = None \<and>
         GenerateMatchProof H rng eq preimages' misses =
         GenerateMatchProof H rng eq preimages misses"
proof -
  let ?os = "remove_misses misses (orders eq)"
  let ?P = "\<lambda>p. H p \<in> snd ` set ?os"
  have "filter ?P extras = []"
    using assms(5) by (simp add: filter_empty_conv)
  moreover have "filter ?P preimages' \<in> shuffles (filter ?P preimages) (filter ?P extras)"
    using assms(6) filter_shuffles [of ?P preimages extras] by blast
  ultimately have f: "filter ?P preimages' = filter ?P preimages"
    by simp
  have opm: "match_preimages H rng ?os 0 preimages' [] = match_preimages H rng ?os 0 preimages []"
    using match_preimages_filter [OF assms(1,3), of H 0 preimages' "[]" 0]
      match_preimages_filter [OF assms(1,3), of H 0 preimages "[]" 0]
    by (simp add: f)
  have dk: "distinct (map fst ?os)"
    using assms(2) by (simp add: queue_ok_def distinct_remove_misses)
  have len: "length (match_preimages H rng ?os 0 preimages []) = length ?os"
    by (rule match_preimages_all_matched [OF assms(1) dk assms(3,4)])
  then have len': "length (match_preimages H rng ?os 0 preimages' []) = length ?os"
    by (simp add: opm)
  show ?thesis
    using GenerateMatchProof_success [OF assms(1) len] GenerateMatchProof_success [OF assms(1) len']
    by (simp add: opm err_of_def)
qed

text \<open>
  Orders a, b, c with b a miss, the preimages of c and a supplied; the extra
  preimages are \<open>pimgX\<close>, that nobody committed to, and the preimage of the miss b.
\<close>

theorem surplus_preimages_witness:
  "range_ok range_flip \<and> queue_ok queueABC \<and>
   remove_misses [oidB] (orders queueABC) = [(oidA, toy_hash pimgA), (oidC, toy_hash pimgC)] \<and>
   toy_hash pimgA \<noteq> toy_hash pimgC \<and>
   toy_hash pimgX \<noteq> toy_hash pimgA \<and> toy_hash pimgX \<noteq> toy_hash pimgC \<and>
   toy_hash pimgB \<noteq> toy_hash pimgA \<and> toy_hash pimgB \<noteq> toy_hash pimgC \<and>
   [pimgX, pimgC, pimgB, pimgA] \<in> shuffles [pimgC, pimgA] [pimgX, pimgB] \<and>
   err_of (GenerateMatchProof toy_hash range_flip queueABC [pimgX, pimgC, pimgB, pimgA] [oidB]) = None \<and>
   GenerateMatchProof toy_hash range_flip queueABC [pimgX, pimgC, pimgB, pimgA] [oidB] =
     GenerateMatchProof toy_hash range_flip queueABC [pimgC, pimgA] [oidB] \<and>
   snd (GenerateMatchProof toy_hash range_flip queueABC [pimgC, pimgA] [oidB]) =
     (Some (toy_hash (pimgA @ pimgC)), Some (toy_hash (toy_hash pimgC @ toy_hash pimgA)), None)"
proof -
  have h2: "queue_ok queueABC"
    by (simp add: queue_ok_def orders_queueABC oid_facts)
  have r: "remove_misses [oidB] (orders queueABC) =
           [(oidA, toy_hash pimgA), (oidC, toy_hash pimgC)]"
    by (simp add: orders_queueABC AList.delete_eq oid_facts)
  have h3: "distinct (map snd (remove_misses [oidB] (orders queueABC)))"
    unfolding r by (simp add: commit_neq_facts)
  have h4: "\<forall>e \<in> set (remove_misses [oidB] (orders queueABC)).
              \<exists>pimg \<in> set [pimgC, pimgA]. toy_hash pimg = snd e"
    unfolding r by simp
  have h5: "\<forall>x \<in> set [pimgX, pimgB].
              toy_hash x \<notin> snd ` set (remove_misses [oidB] (orders queueABC))"
    unfolding r by (simp add: commit_neq_facts)
  have h6: "[pimgX, pimgC, pimgB, pimgA] \<in> shuffles [pimgC, pimgA] [pimgX, pimgB]"
    by simp
  have v: "snd (GenerateMatchProof toy_hash range_flip queueABC [pimgC, pimgA] [oidB]) =
     (Some (toy_hash (pimgA @ pimgC)), Some (toy_hash (toy_hash pimgC @ toy_hash pimgA)), None)"
    by (simp add: eval_simps orders_queueABC)
  have n: "toy_hash pimgA \<noteq> toy_hash pimgC" "toy_hash pimgX \<noteq> toy_hash pimgA"
    "toy_hash pimgX \<noteq> toy_hash pimgC" "toy_hash pimgB \<noteq> toy_hash pimgA"
    "toy_hash pimgB \<noteq> toy_hash pimgC"
    by (simp_all add: commit_neq_facts)
  show ?thesis
    using surplus_preimages [OF range_ok_flip h2 h3 h4 h5 h6] range_ok_flip h2 r h6 v n
    by blast
qed

text \<open>
  C9 as stated fails when two orders hold the same commitment. Orders a and b
  commit to the hash of \<open>pimgA\<close>, so each order has a supplied preimage that matches
  it, and \<open>pimgX\<close> matches no commitment: the call with the extra preimage returns
  the error. And where the preimage is supplied twice and the call succeeds, the
  second \<^verbatim>\<open>range\<close> statement starting at b, an extra preimage between the two moves
  the second match to a later \<^verbatim>\<open>range\<close> statement, which starts at a: the call fails.
\<close>

theorem surplus_duplicate_counterexample:
  "range_ok range_stored \<and> range_ok range_flip \<and>
   orders queueDup = [(oidA, toy_hash pimgA), (oidB, toy_hash pimgA)] \<and>
   toy_hash pimgX \<noteq> toy_hash pimgA \<and>
   GenerateMatchProof toy_hash range_stored queueDup [pimgA, pimgX] [] =
     (queueDup, None, None, Some (ErrUnmatched 1 2)) \<and>
   GenerateMatchProof toy_hash range_flip queueDup [pimgA, pimgA] [] =
     (queueDup, Some (toy_hash (pimgA @ pimgA)),
      Some (toy_hash (toy_hash pimgA @ toy_hash pimgA)), None) \<and>
   GenerateMatchProof toy_hash range_flip queueDup [pimgA, pimgX, pimgA] [] =
     (queueDup, None, None, Some (ErrUnmatched 1 2))"
  by (simp add: eval_simps orders_queueDup range_ok_stored range_ok_flip)

end
